theory Spec2Isabelle
  imports Main
begin

section \<open>Driver calls and the processor link\<close>

text \<open>
  Events are \<open>map[string]interface{}\<close> values whose contents play no part in the
  lifecycle code, so the event type is a parameter \<open>'e\<close>. A pointer to an output box or
  to a filter box is a natural number (its address); two pointers are the same object
  iff the numbers are equal.

  Every call that leaves the input box (to the logger, to the input driver, to an output
  stage) is appended to a chronological list of calls.
\<close>

datatype 'e call =
    GlogInfo string
  | ReadOneEvent nat "'e option"
  | InputShutdown
  | OutputShutdown nat
  | OutputProcess nat 'e

text \<open>
  Modelled from the spec: the packages \<open>topology\<close>, \<open>filter\<close> and \<open>output\<close> are not
  among the sources. A Processor has the one operation \<open>Process(event)\<close> returning an
  event or none; a filter stage forwards (possibly changed) or drops; an output stage is
  terminal; an OutputsProcessor is a synchronous fan-out that calls each output's
  \<open>Process\<close> in configuration order for every event.
\<close>

datatype 'e Processor =
    FilterBox nat "'e \<Rightarrow> 'e option"
  | OutputBox nat
  | OutputsProcessor "nat list"

fun Process :: "'e Processor \<Rightarrow> 'e \<Rightarrow> 'e call list \<Rightarrow> 'e option \<times> 'e call list" where
  "Process (FilterBox a f) e cs = (f e, cs)"
| "Process (OutputBox a) e cs = (None, cs @ [OutputProcess a e])"
| "Process (OutputsProcessor os) e cs = (None, cs @ map (\<lambda>a. OutputProcess a e) os)"

text \<open>
  Modelled from the spec: the processor link is a head-referenced singly linked list of
  Processor nodes, each holding the next pointer; \<open>AppendProcessorsToLink\<close> adds a
  processor at the tail and returns the head (a nil head yields the new node), and a
  node's \<open>Process\<close> runs its processor and hands a forwarded event to the next node.
\<close>

datatype 'e ProcessorNode = ProcessorNode "'e Processor" "'e ProcessorNode option"

fun append_tail :: "'e ProcessorNode \<Rightarrow> 'e Processor \<Rightarrow> 'e ProcessorNode" where
  "append_tail (ProcessorNode p None) q = ProcessorNode p (Some (ProcessorNode q None))"
| "append_tail (ProcessorNode p (Some n)) q = ProcessorNode p (Some (append_tail n q))"

fun AppendProcessorsToLink ::
  "'e ProcessorNode option \<Rightarrow> 'e Processor \<Rightarrow> 'e ProcessorNode option" where
  "AppendProcessorsToLink None q = Some (ProcessorNode q None)"
| "AppendProcessorsToLink (Some h) q = Some (append_tail h q)"

fun node_Process :: "'e ProcessorNode \<Rightarrow> 'e \<Rightarrow> 'e call list \<Rightarrow> 'e option \<times> 'e call list" where
  "node_Process (ProcessorNode p None) e cs = Process p e cs"
| "node_Process (ProcessorNode p (Some n)) e cs =
     (case Process p e cs of
        (None, cs') \<Rightarrow> (None, cs')
      | (Some e', cs') \<Rightarrow> node_Process n e' cs')"

fun processors_of :: "'e ProcessorNode \<Rightarrow> 'e Processor list" where
  "processors_of (ProcessorNode p None) = [p]"
| "processors_of (ProcessorNode p (Some n)) = p # processors_of n"

fun link_processors :: "'e ProcessorNode option \<Rightarrow> 'e Processor list" where
  "link_processors None = []"
| "link_processors (Some h) = processors_of h"


text \<open>
  \<open>firstNode.Process(event)\<close> on a link; a nil head has nothing to call.
  \<open>procs_Process\<close> runs a sequence of processors one after the other, and \<open>chain\<close> is
  what a sequence of filter stages does to one event.
\<close>

fun link_Process ::
  "'e ProcessorNode option \<Rightarrow> 'e \<Rightarrow> 'e call list \<Rightarrow> ('e option \<times> 'e call list) option" where
  "link_Process None e cs = None"
| "link_Process (Some n) e cs = Some (node_Process n e cs)"

fun procs_Process :: "'e Processor list \<Rightarrow> 'e \<Rightarrow> 'e call list \<Rightarrow> 'e option \<times> 'e call list" where
  "procs_Process [] e cs = (Some e, cs)"
| "procs_Process (p # ps) e cs =
     (case Process p e cs of
        (None, cs') \<Rightarrow> (None, cs')
      | (Some e', cs') \<Rightarrow> procs_Process ps e' cs')"

fun chain :: "('e \<Rightarrow> 'e option) list \<Rightarrow> 'e \<Rightarrow> 'e option" where
  "chain [] e = Some e"
| "chain (f # fs) e = (case f e of None \<Rightarrow> None | Some e' \<Rightarrow> chain fs e')"

fun emit :: "'e option \<Rightarrow> nat list \<Rightarrow> 'e call list" where
  "emit None outputs = []"
| "emit (Some e) outputs = map (\<lambda>a. OutputProcess a e) outputs"

section \<open>The configuration plan and the builders\<close>

text \<open>
  Modelled from the spec: a parsed configuration yields three ordered sequences, inputs,
  filters and outputs; each input entry is a single-key mapping from the driver type to
  its options (kept as an association list, as the code ranges over it). A filter entry
  is kept as the stage's effect on an event, an output entry as its driver type.
\<close>

record 'e plan =
  plan_inputs :: "(string \<times> string) list list"
  plan_filters :: "('e \<Rightarrow> 'e option) list"
  plan_outputs :: "string list"

text \<open>
  Modelled from the spec: \<open>output.BuildOutputs\<close> and \<open>filter.BuildFilterBoxes\<close> are not
  among the sources. Each call constructs new stages, one per configured entry, in
  configuration order; a new object takes the next free address.
\<close>

definition BuildOutputs :: "'e plan \<Rightarrow> nat \<Rightarrow> nat list \<times> nat" where
  "BuildOutputs cfg h = ([h ..< h + length (plan_outputs cfg)], h + length (plan_outputs cfg))"

definition BuildFilterBoxes :: "'e plan \<Rightarrow> 'e Processor \<Rightarrow> nat \<Rightarrow> 'e Processor list \<times> nat" where
  "BuildFilterBoxes cfg outputProcessor h =
     (map (\<lambda>(a, f). FilterBox a f) (zip [h ..< h + length (plan_filters cfg)] (plan_filters cfg)),
      h + length (plan_filters cfg))"

section \<open>The input box\<close>

text \<open>
  The struct \<open>InputBox\<close> of \<open>input/input_box.go\<close>. The input driver is kept as its type
  name; \<open>once\<close> is the done flag of the \<open>sync.Once\<close>; \<open>shutdownChan\<close> is the number of
  values in the channel's buffer, whose capacity is 1. The field \<open>shutdownWhenNil\<close> is
  not in the struct; it is there for the setter below.
\<close>

record 'e InputBox =
  config :: "'e plan"
  input :: string
  outputsInAllWorker :: "nat list list"
  stop :: bool
  once :: bool
  shutdownChan :: nat
  shutdownWhenNil :: bool

definition NewInputBox :: "string \<Rightarrow> 'e plan \<Rightarrow> 'e InputBox" where
  "NewInputBox inp cfg =
     \<lparr>config = cfg, input = inp, outputsInAllWorker = [], stop = False, once = False,
      shutdownChan = 0, shutdownWhenNil = False\<rparr>"

text \<open>
  Modelled from the spec: \<open>SetShutdownWhenNil\<close> is not in \<open>input/input_box.go\<close>;
  \<open>buildPluginLink\<close> calls it with the \<open>exit-when-nil\<close> option, which configures the
  box, so it stores the option in the box.
\<close>

definition SetShutdownWhenNil :: "bool \<Rightarrow> 'e InputBox \<Rightarrow> 'e InputBox" where
  "SetShutdownWhenNil b box = box\<lparr>shutdownWhenNil := b\<rparr>"

text \<open>
  A box at run time: the struct, the next free address, the calls made so far, and the
  position of every thread inside the box's methods. A worker (one \<open>go box.beat(i)\<close>)
  is at one of the points of \<open>beat\<close>; \<open>firstNode\<close> is its local variable. \<open>senders\<close>
  counts the callers of \<open>Shutdown\<close> that stand before the channel send of line 89,
  \<open>setters\<close> those that stand before \<open>box.stop = true\<close> of line 94.
\<close>

datatype 'e wpc = Spawned | LoopHead | Reading | GotNil | Holding 'e | Sending | Exited

record 'e worker =
  pc :: "'e wpc"
  firstNode :: "'e ProcessorNode option"

datatype beat_pc = NotCalled | Waiting | Finished

record 'e sys = "'e InputBox" +
  heap :: nat
  calls :: "'e call list"
  workers :: "'e worker list"
  Beat_pc :: beat_pc
  senders :: nat
  setters :: nat

definition boot :: "'e InputBox \<Rightarrow> 'e sys" where
  "boot box =
     \<lparr>config = config box, input = input box, outputsInAllWorker = outputsInAllWorker box,
      stop = stop box, once = once box, shutdownChan = shutdownChan box,
      shutdownWhenNil = shutdownWhenNil box,
      heap = 0, calls = [], workers = [], Beat_pc = NotCalled, senders = 0, setters = 0\<rparr>"

definition set_pc :: "nat \<Rightarrow> 'e wpc \<Rightarrow> 'e sys \<Rightarrow> 'e sys" where
  "set_pc i p s = s\<lparr>workers := (workers s)[i := (workers s ! i)\<lparr>pc := p\<rparr>]\<rparr>"

text \<open>Lines 31 to 47 of \<open>beat\<close>: build the outputs, record them, build the link.\<close>

definition terminal :: "nat list \<Rightarrow> 'e Processor" where
  "terminal outputs = (case outputs of [a] \<Rightarrow> OutputBox a | _ \<Rightarrow> OutputsProcessor outputs)"

definition build_link :: "'e Processor list \<Rightarrow> 'e Processor \<Rightarrow> 'e ProcessorNode option" where
  "build_link filterBoxes outputProcessor =
     AppendProcessorsToLink (fold (\<lambda>b n. AppendProcessorsToLink n b) filterBoxes None) outputProcessor"

definition beat_build :: "nat \<Rightarrow> 'e sys \<Rightarrow> 'e sys" where
  "beat_build workerIdx s =
     (let (outputs, h1) = BuildOutputs (config s) (heap s);
          outputProcessor = terminal outputs;
          (filterBoxes, h2) = BuildFilterBoxes (config s) outputProcessor h1
      in s\<lparr>outputsInAllWorker := (outputsInAllWorker s)[workerIdx := outputs],
            heap := h2,
            workers := (workers s)[workerIdx :=
               \<lparr>pc = LoopHead, firstNode = build_link filterBoxes outputProcessor\<rparr>]\<rparr>)"

text \<open>Lines 76 to 87 of \<open>shutdown\<close>: the body guarded by \<open>once.Do\<close>.\<close>

definition shutdown_outputs :: "nat list list \<Rightarrow> 'e call list" where
  "shutdown_outputs ows =
     concat (map (\<lambda>outputs. concat (map (\<lambda>a. [GlogInfo ''try to shutdown output'', OutputShutdown a]) outputs)) ows)"

definition shutdown_once :: "'e sys \<Rightarrow> 'e sys" where
  "shutdown_once s =
     (if once s then s
      else s\<lparr>once := True,
             calls := calls s @ [GlogInfo ''try to shutdown input'', InputShutdown]
                      @ shutdown_outputs (outputsInAllWorker s)\<rparr>)"

text \<open>
  The threads of a box interleave in atomic steps, one constructor per step:
  \<^item> \<open>Call_Beat n\<close>: lines 67 to 70 of \<open>Beat\<close>; \<open>Beat_receive\<close>: the receive of line 72;
  \<^item> \<open>Worker_build i\<close>: lines 31 to 47 of \<open>beat\<close>; \<open>Worker_test i\<close>: the loop condition of
    line 53; \<open>Worker_read i r\<close>: line 54, the input driver returning \<open>r\<close>;
    \<open>Worker_process i\<close>: line 62; \<open>Worker_nil i\<close>: lines 55 to 58 with the guarded body of
    \<open>shutdown\<close>; \<open>Worker_send i\<close>: the send of line 89 and the return of line 60;
  \<^item> \<open>Call_Shutdown\<close>: a caller of \<open>Shutdown\<close> runs the guarded body (lines 76 to 87);
    \<open>Shutdown_send\<close>: such a caller sends (line 89); \<open>Shutdown_set_stop\<close>: it sets the
    stop flag (line 94).
  The guarded body is one step: \<open>sync.Once\<close> lets no second caller in before the first
  has finished. A step that cannot be taken in a state (the thread is not at that point,
  a send finds the buffer full, a receive finds it empty) yields \<open>None\<close>.
\<close>

datatype 'e action =
    Call_Beat nat
  | Beat_receive
  | Worker_build nat
  | Worker_test nat
  | Worker_read nat "'e option"
  | Worker_nil nat
  | Worker_send nat
  | Worker_process nat
  | Call_Shutdown
  | Shutdown_send
  | Shutdown_set_stop

definition at_pc :: "nat \<Rightarrow> 'e wpc \<Rightarrow> 'e sys \<Rightarrow> bool" where
  "at_pc i p s = (i < length (workers s) \<and> pc (workers s ! i) = p)"

fun step :: "'e action \<Rightarrow> 'e sys \<Rightarrow> 'e sys option" where
  "step (Call_Beat worker) s =
     (if Beat_pc s = NotCalled
      then Some (s\<lparr>outputsInAllWorker := replicate worker [],
                   workers := replicate worker \<lparr>pc = Spawned, firstNode = None\<rparr>,
                   Beat_pc := Waiting\<rparr>)
      else None)"
| "step Beat_receive s =
     (if Beat_pc s = Waiting \<and> 0 < shutdownChan s
      then Some (s\<lparr>shutdownChan := shutdownChan s - 1, Beat_pc := Finished\<rparr>)
      else None)"
| "step (Worker_build i) s =
     (if at_pc i Spawned s \<and> i < length (outputsInAllWorker s)
      then Some (beat_build i s) else None)"
| "step (Worker_test i) s =
     (if at_pc i LoopHead s
      then Some (set_pc i (if stop s then Exited else Reading) s) else None)"
| "step (Worker_read i r) s =
     (if at_pc i Reading s
      then Some (set_pc i (case r of None \<Rightarrow> GotNil | Some e \<Rightarrow> Holding e)
                   (s\<lparr>calls := calls s @ [ReadOneEvent i r]\<rparr>))
      else None)"
| "step (Worker_nil i) s =
     (if at_pc i GotNil s
      then (if \<not> stop s
            then Some (set_pc i Sending
                   (shutdown_once (s\<lparr>calls := calls s @ [GlogInfo ''receive nil message. shutdown...'']\<rparr>)))
            else Some (set_pc i Exited s))
      else None)"
| "step (Worker_send i) s =
     (if at_pc i Sending s \<and> shutdownChan s < 1
      then Some (set_pc i Exited (s\<lparr>shutdownChan := shutdownChan s + 1\<rparr>))
      else None)"
| "step (Worker_process i) s =
     (if i < length (workers s)
      then (case (pc (workers s ! i), firstNode (workers s ! i)) of
              (Holding e, Some n) \<Rightarrow>
                Some (set_pc i LoopHead (s\<lparr>calls := snd (node_Process n e (calls s))\<rparr>))
            | _ \<Rightarrow> None)
      else None)"
| "step Call_Shutdown s = Some ((shutdown_once s)\<lparr>senders := senders s + 1\<rparr>)"
| "step Shutdown_send s =
     (if 0 < senders s \<and> shutdownChan s < 1
      then Some (s\<lparr>shutdownChan := shutdownChan s + 1, senders := senders s - 1,
                   setters := setters s + 1\<rparr>)
      else None)"
| "step Shutdown_set_stop s =
     (if 0 < setters s then Some (s\<lparr>stop := True, setters := setters s - 1\<rparr>) else None)"

fun run :: "'e action list \<Rightarrow> 'e sys \<Rightarrow> 'e sys option" where
  "run [] s = Some s"
| "run (a # as) s = (case step a s of None \<Rightarrow> None | Some s' \<Rightarrow> run as s')"

text \<open>What a list of calls shows: the driver shutdowns, in order.\<close>

fun is_shutdown :: "'e call \<Rightarrow> bool" where
  "is_shutdown InputShutdown = True"
| "is_shutdown (OutputShutdown a) = True"
| "is_shutdown (GlogInfo m) = False"
| "is_shutdown (ReadOneEvent i r) = False"
| "is_shutdown (OutputProcess a e) = False"

definition shutdown_calls :: "'e call list \<Rightarrow> 'e call list" where
  "shutdown_calls cs = filter is_shutdown cs"

definition shutdowns_made :: "'e sys \<Rightarrow> 'e call list" where
  "shutdowns_made s = shutdown_calls (calls s)"


text \<open>
  Predicates on the state of a box used by the proofs: a shutdown signal is under way
  or has been consumed; the recorded outputs are pairwise different objects that lie
  below the next free address.
\<close>

definition signalled :: "'e sys \<Rightarrow> bool" where
  "signalled s =
     (0 < shutdownChan s \<or> Beat_pc s = Finished \<or> 0 < senders s \<or>
      (\<exists>i < length (workers s). pc (workers s ! i) = Sending))"

definition fresh_outputs :: "'e sys \<Rightarrow> bool" where
  "fresh_outputs s =
     (distinct (concat (outputsInAllWorker s)) \<and>
      (\<forall>a \<in> set (concat (outputsInAllWorker s)). a < heap s))"

text \<open>
  The objects a link is made of: the addresses of its filter boxes and of the outputs
  behind its terminal processor. \<open>separate_links N\<close>: \<open>Beat(N)\<close> has been called, there
  are \<open>N\<close> workers, a worker has a link iff it has passed the building part of \<open>beat\<close>,
  no link holds an object twice, and no object belongs to the links of two workers.
\<close>

fun proc_ids :: "'e Processor \<Rightarrow> nat list" where
  "proc_ids (FilterBox a f) = [a]"
| "proc_ids (OutputBox a) = [a]"
| "proc_ids (OutputsProcessor os) = os"

definition link_ids :: "'e ProcessorNode option \<Rightarrow> nat list" where
  "link_ids l = concat (map proc_ids (link_processors l))"

definition worker_ids :: "'e sys \<Rightarrow> nat \<Rightarrow> nat list" where
  "worker_ids s i = link_ids (firstNode (workers s ! i))"


text \<open>
  What the calls show about one worker and one output: the events worker \<open>i\<close> has read
  from the input, and the events handed to the output at address \<open>a\<close>, both in order.
  \<open>processed s i\<close> are the events worker \<open>i\<close> has read and passed on to its link: all
  it has read, but for the one it holds between lines 54 and 62.
\<close>

fun reads :: "nat \<Rightarrow> 'e call list \<Rightarrow> 'e list" where
  "reads i [] = []"
| "reads i (ReadOneEvent j (Some e) # cs) = (if j = i then e # reads i cs else reads i cs)"
| "reads i (c # cs) = reads i cs"

fun handed :: "nat \<Rightarrow> 'e call list \<Rightarrow> 'e list" where
  "handed a [] = []"
| "handed a (OutputProcess b e # cs) = (if b = a then e # handed a cs else handed a cs)"
| "handed a (c # cs) = handed a cs"

definition processed :: "'e sys \<Rightarrow> nat \<Rightarrow> 'e list" where
  "processed s i =
     (case pc (workers s ! i) of
        Holding e \<Rightarrow> butlast (reads i (calls s))
      | _ \<Rightarrow> reads i (calls s))"

definition worker_in_order :: "'e sys \<Rightarrow> nat \<Rightarrow> bool" where
  "worker_in_order s i =
     ((pc (workers s ! i) = Spawned \<longrightarrow> reads i (calls s) = []) \<and>
      (pc (workers s ! i) \<noteq> Spawned \<longrightarrow>
         (\<forall>e cs. link_Process (firstNode (workers s ! i)) e cs =
                   Some (None, cs @ emit (chain (plan_filters (config s)) e) (outputsInAllWorker s ! i)))) \<and>
      (\<forall>e. pc (workers s ! i) = Holding e \<longrightarrow>
             reads i (calls s) \<noteq> [] \<and> last (reads i (calls s)) = e) \<and>
      (\<forall>a \<in> set (outputsInAllWorker s ! i).
         handed a (calls s) = List.map_filter (chain (plan_filters (config s))) (processed s i)))"

definition in_order :: "'e sys \<Rightarrow> bool" where
  "in_order s =
     (length (outputsInAllWorker s) = length (workers s) \<and>
      fresh_outputs s \<and>
      (\<forall>a. heap s \<le> a \<longrightarrow> handed a (calls s) = []) \<and>
      (Beat_pc s = NotCalled \<longrightarrow> workers s = [] \<and> (\<forall>i. reads i (calls s) = [])) \<and>
      (\<forall>i < length (workers s). worker_in_order s i))"

section \<open>A small plan for concrete runs\<close>

text \<open>
  One input, one filter that drops the event \<open>0\<close> and increments every other event,
  two outputs. \<open>demo_started\<close> is the box right after \<open>Beat(2)\<close>.
\<close>

definition demo_plan :: "nat plan" where
  "demo_plan =
     \<lparr>plan_inputs = [[(''stdin'', ''codec'')]],
      plan_filters = [\<lambda>e. if e = 0 then None else Some (e + 1)],
      plan_outputs = [''a'', ''b'']\<rparr>"

definition demo_started :: "nat sys" where
  "demo_started =
     (boot (NewInputBox ''stdin'' demo_plan))
       \<lparr>outputsInAllWorker := [[], []],
        workers := [\<lparr>pc = Spawned, firstNode = None\<rparr>, \<lparr>pc = Spawned, firstNode = None\<rparr>],
        Beat_pc := Waiting\<rparr>"





text \<open>\<open>filter_run\<close>: the only worker reads and processes the events \<open>5\<close>, \<open>0\<close> and \<open>7\<close>.\<close>

definition filter_run :: "nat action list" where
  "filter_run =
     [Call_Beat 1, Worker_build 0,
      Worker_test 0, Worker_read 0 (Some 5), Worker_process 0,
      Worker_test 0, Worker_read 0 (Some 0), Worker_process 0,
      Worker_test 0, Worker_read 0 (Some 7), Worker_process 0]"

section \<open>The supervisor\<close>

text \<open>
  The package \<open>main\<close>. Of the options only \<open>autoReload\<close> and \<open>exitWhenNil\<close> matter
  here. The supervisor's state is the global \<open>inputs\<close>, with every box as it stands,
  and what has been logged. \<open>config.ParseConfig\<close> and \<open>input.GetInput\<close> are not among
  the sources: the outcome of parsing is a parameter \<open>parsed\<close> (an error message or a
  plan), and so is \<open>GetInput\<close>, which tells whether a driver can be constructed for an
  input type and its options (a nil plugin otherwise).

  A caller that blocks for ever on a full shutdown channel is kept as \<open>Parks\<close>, with
  the state at that point.
\<close>

record options =
  autoReload :: bool
  exitWhenNil :: bool

datatype klog_entry = Info string | Error string | Fatal string

record 'e supervisor =
  inputs :: "'e sys list"
  klog :: "klog_entry list"

datatype 'a outcome = Returns 'a | Parks 'a

text \<open>\<open>box.Shutdown()\<close> run by one thread to its end: lines 92 to 95.\<close>

definition Shutdown :: "'e sys \<Rightarrow> 'e sys outcome" where
  "Shutdown s =
     (case step Call_Shutdown s of
        None \<Rightarrow> Parks s
      | Some s1 \<Rightarrow>
          (case step Shutdown_send s1 of
             None \<Rightarrow> Parks s1
           | Some s2 \<Rightarrow>
               (case step Shutdown_set_stop s2 of
                  None \<Rightarrow> Parks s2
                | Some s3 \<Rightarrow> Returns s3)))"

text \<open>\<open>inputs.stop()\<close>: the boxes are shut down one after the other.\<close>

fun stop_inputs :: "'e sys list \<Rightarrow> 'e sys list outcome" where
  "stop_inputs [] = Returns []"
| "stop_inputs (box # boxes) =
     (case Shutdown box of
        Parks box' \<Rightarrow> Parks (box' # boxes)
      | Returns box' \<Rightarrow>
          (case stop_inputs boxes of
             Parks boxes' \<Rightarrow> Parks (box' # boxes')
           | Returns boxes' \<Rightarrow> Returns (box' # boxes')))"

text \<open>
  \<open>go inputs.start()\<close>: \<open>Beat(worker)\<close> is called on every box, each call in a thread of
  its own; the threads of a box then run by the steps above.
\<close>

definition start :: "nat \<Rightarrow> 'e sys list \<Rightarrow> 'e sys list" where
  "start worker boxes =
     map (\<lambda>box. case step (Call_Beat worker) box of None \<Rightarrow> box | Some box' \<Rightarrow> box') boxes"

text \<open>
  \<open>buildPluginLink\<close>: the inner loop over the pairs of one input entry, the outer loop
  over the entries. \<open>NewInputBox\<close> never returns nil, so the branch of line 101 is not
  taken.
\<close>

fun build_entry ::
  "(string \<Rightarrow> string \<Rightarrow> bool) \<Rightarrow> bool \<Rightarrow> 'e plan \<Rightarrow> (string \<times> string) list \<Rightarrow> 'e sys list
   \<Rightarrow> string + 'e sys list" where
  "build_entry GetInput flag cfg [] boxes = Inr boxes"
| "build_entry GetInput flag cfg ((inputType, inputConfig) # rest) boxes =
     (if \<not> GetInput inputType inputConfig then Inl ''invalid input plugin''
      else build_entry GetInput flag cfg rest
             (boxes @ [boot (SetShutdownWhenNil flag (NewInputBox inputType cfg))]))"

fun build_entries ::
  "(string \<Rightarrow> string \<Rightarrow> bool) \<Rightarrow> bool \<Rightarrow> 'e plan \<Rightarrow> (string \<times> string) list list \<Rightarrow> 'e sys list
   \<Rightarrow> string + 'e sys list" where
  "build_entries GetInput flag cfg [] boxes = Inr boxes"
| "build_entries GetInput flag cfg (i # rest) boxes =
     (case build_entry GetInput flag cfg i boxes of
        Inl err \<Rightarrow> Inl err
      | Inr boxes' \<Rightarrow> build_entries GetInput flag cfg rest boxes')"

definition buildPluginLink ::
  "(string \<Rightarrow> string \<Rightarrow> bool) \<Rightarrow> options \<Rightarrow> 'e plan \<Rightarrow> string + 'e sys list" where
  "buildPluginLink GetInput opts cfg =
     build_entries GetInput (exitWhenNil opts) cfg (plan_inputs cfg) []"

definition reload ::
  "(string + 'e plan) \<Rightarrow> (string \<Rightarrow> string \<Rightarrow> bool) \<Rightarrow> options \<Rightarrow> nat \<Rightarrow> 'e supervisor
   \<Rightarrow> 'e supervisor outcome" where
  "reload parsed GetInput opts worker sv =
     (case parsed of
        Inl err \<Rightarrow>
          Returns (sv\<lparr>klog := klog sv @ [Error ''could not parse config, ignore reload'']\<rparr>)
      | Inr gohangoutConfig \<Rightarrow>
          (case stop_inputs (inputs sv) of
             Parks boxes \<Rightarrow>
               Parks (sv\<lparr>inputs := boxes, klog := klog sv @ [Info ''stop old inputs'']\<rparr>)
           | Returns stopped \<Rightarrow>
               (case buildPluginLink GetInput opts gohangoutConfig of
                  Inl err \<Rightarrow>
                    Returns (sv\<lparr>inputs := stopped,
                                  klog := klog sv @ [Info ''stop old inputs'',
                                            Error ''build plugin link error, ignore reload'']\<rparr>)
                | Inr boxes \<Rightarrow>
                    Returns (sv\<lparr>inputs := start worker boxes,
                                  klog := klog sv @ [Info ''stop old inputs'',
                                            Info ''start new inputs'']\<rparr>))))"

text \<open>
  \<open>_main\<close>, in two parts: up to the wait on \<open>ctx.Done()\<close> (lines 134 to 155), and from
  there to the return of \<open>main\<close> (lines 157 and 158). \<open>klog.Fatalf\<close> logs and ends the
  process with exit code 255; a \<open>main\<close> that returns ends it with exit code 0.
  \<open>watched\<close> tells whether \<open>config.WatchConfig\<close> succeeds.
\<close>

datatype 'e process = Exit nat "'e supervisor" | Serving "'e supervisor" | Hung "'e supervisor"

definition main_startup ::
  "(string + 'e plan) \<Rightarrow> (string \<Rightarrow> string \<Rightarrow> bool) \<Rightarrow> options \<Rightarrow> nat \<Rightarrow> bool \<Rightarrow> 'e process" where
  "main_startup parsed GetInput opts worker watched =
     (case parsed of
        Inl err \<Rightarrow> Exit 255 \<lparr>inputs = [], klog = [Fatal ''could not parse config'']\<rparr>
      | Inr gohangoutConfig \<Rightarrow>
          (case buildPluginLink GetInput opts gohangoutConfig of
             Inl err \<Rightarrow> Exit 255 \<lparr>inputs = [], klog = [Fatal ''build plugin link error'']\<rparr>
           | Inr boxes \<Rightarrow>
               (if autoReload opts \<and> \<not> watched
                then Exit 255 \<lparr>inputs = start worker boxes, klog = [Fatal ''watch config fail'']\<rparr>
                else Serving \<lparr>inputs = start worker boxes, klog = []\<rparr>)))"

definition main_finish :: "'e supervisor \<Rightarrow> 'e process" where
  "main_finish sv =
     (case stop_inputs (inputs sv) of
        Parks boxes \<Rightarrow> Hung (sv\<lparr>inputs := boxes\<rparr>)
      | Returns boxes \<Rightarrow> Exit 0 (sv\<lparr>inputs := boxes\<rparr>))"

text \<open>A box is running when \<open>Beat\<close> has been called on it and its shutdown has not begun.\<close>

definition running :: "'e sys \<Rightarrow> bool" where
  "running box = (Beat_pc box = Waiting \<and> \<not> once box)"

text \<open>
  A supervisor with one running box of the small plan; a plan that parses but names an
  input type for which no driver exists; a \<open>GetInput\<close> that knows \<open>stdin\<close> only.
\<close>

definition demo_supervisor :: "nat supervisor" where
  "demo_supervisor = \<lparr>inputs = [demo_started], klog = []\<rparr>"

definition unknown_input_plan :: "nat plan" where
  "unknown_input_plan = demo_plan\<lparr>plan_inputs := [[(''nosuch'', ''codec'')]]\<rparr>"

definition only_stdin :: "string \<Rightarrow> string \<Rightarrow> bool" where
  "only_stdin inputType inputConfig = (inputType = ''stdin'')"

definition plain_options :: options where
  "plain_options = \<lparr>autoReload = False, exitWhenNil = False\<rparr>"

fun returned :: "'a outcome \<Rightarrow> bool" where
  "returned (Returns x) = True"
| "returned (Parks x) = False"

fun final :: "'a outcome \<Rightarrow> 'a" where
  "final (Returns x) = x"
| "final (Parks x) = x"

section \<open>Properties of the link\<close>

lemma processors_of_append_tail: "processors_of (append_tail h q) = processors_of h @ [q]"
  by (induction h q rule: append_tail.induct) simp_all

lemma link_processors_Append:
  "link_processors (AppendProcessorsToLink l q) = link_processors l @ [q]"
  by (cases l) (simp_all add: processors_of_append_tail)

lemma link_processors_fold:
  "link_processors (fold (\<lambda>b n. AppendProcessorsToLink n b) bs l) = link_processors l @ bs"
  by (induction bs arbitrary: l) (simp_all add: link_processors_Append)

lemma link_processors_build_link:
  "link_processors (build_link bs q) = bs @ [q]"
  by (simp add: build_link_def link_processors_Append link_processors_fold)

lemma beat_build_worker:
  assumes "i < length (workers s)"
  shows "firstNode (workers (beat_build i s) ! i) =
           build_link (fst (BuildFilterBoxes (config s) (terminal (fst (BuildOutputs (config s) (heap s))))
                              (snd (BuildOutputs (config s) (heap s)))))
                      (terminal (fst (BuildOutputs (config s) (heap s))))"
  using assms by (simp add: beat_build_def Let_def split_beta)

lemma beat_build_outputs:
  assumes "i < length (outputsInAllWorker s)"
  shows "outputsInAllWorker (beat_build i s) ! i = fst (BuildOutputs (config s) (heap s))"
  using assms by (simp add: beat_build_def Let_def split_beta)

lemma node_Process_procs: "node_Process h e cs = procs_Process (processors_of h) e cs"
  by (induction h e cs rule: node_Process.induct) (auto split: prod.splits option.splits)

lemma link_Process_build_link:
  "link_Process (build_link bs q) e cs = Some (procs_Process (bs @ [q]) e cs)"
proof (cases "build_link bs q")
  case None
  then have "link_processors (build_link bs q) = []" by simp
  then show ?thesis by (simp add: link_processors_build_link)
next
  case (Some h)
  then have "processors_of h = bs @ [q]"
    using link_processors_build_link [of bs q] by simp
  with Some show ?thesis by (simp add: node_Process_procs)
qed

lemma procs_Process_append:
  "procs_Process (ps @ qs) e cs =
     (case procs_Process ps e cs of
        (None, cs') \<Rightarrow> (None, cs')
      | (Some e', cs') \<Rightarrow> procs_Process qs e' cs')"
  by (induction ps e cs rule: procs_Process.induct) (auto split: prod.splits option.splits)

lemma Process_terminal: "Process (terminal outs) e cs = (None, cs @ emit (Some e) outs)"
  by (auto simp: terminal_def split: list.splits)

lemma procs_Process_filters:
  "length as = length fs \<Longrightarrow> procs_Process (map2 FilterBox as fs) e cs = (chain fs e, cs)"
proof (induction fs arbitrary: as e)
  case Nil
  then show ?case by simp
next
  case (Cons f fs)
  then obtain a as' where "as = a # as'" "length as' = length fs"
    by (cases as) auto
  with Cons.IH [of as'] show ?case by (auto split: option.splits)
qed

lemma procs_Process_link:
  assumes "length as = length fs"
  shows "procs_Process (map2 FilterBox as fs @ [terminal outs]) e cs = (None, cs @ emit (chain fs e) outs)"
  using procs_Process_filters [OF assms, of e cs]
  by (cases "chain fs e") (simp_all add: procs_Process_append Process_terminal)


text \<open>
  C7. The link a worker builds holds one filter stage per configured filter, in
  configuration order, followed by one terminal processor over the worker's outputs
  (one per configured output, in configuration order). With a number of outputs other
  than one the terminal processor is an OutputsProcessor, which hands every event to each
  output in that order, one call after the other.
\<close>

theorem beat_link_in_configuration_order:
  assumes "step (Worker_build i) s = Some s'"
  shows "(\<exists>as. length as = length (plan_filters (config s)) \<and>
            link_processors (firstNode (workers s' ! i)) =
              map2 FilterBox as (plan_filters (config s)) @ [terminal (outputsInAllWorker s' ! i)])
         \<and> length (outputsInAllWorker s' ! i) = length (plan_outputs (config s))
         \<and> (length (plan_outputs (config s)) \<noteq> 1 \<longrightarrow>
              terminal (outputsInAllWorker s' ! i) = OutputsProcessor (outputsInAllWorker s' ! i))
         \<and> (\<forall>e cs. Process (OutputsProcessor (outputsInAllWorker s' ! i)) e cs =
                     (None, cs @ map (\<lambda>a. OutputProcess a e) (outputsInAllWorker s' ! i)))"
proof -
  from assms have i: "i < length (workers s)" "i < length (outputsInAllWorker s)"
    and s': "s' = beat_build i s"
    by (auto simp: at_pc_def split: if_splits)
  let ?outs = "fst (BuildOutputs (config s) (heap s))"
  let ?h1 = "snd (BuildOutputs (config s) (heap s))"
  let ?as = "[?h1 ..< ?h1 + length (plan_filters (config s))]"
  have outs: "outputsInAllWorker s' ! i = ?outs"
    using i s' by (simp add: beat_build_outputs)
  have "link_processors (firstNode (workers s' ! i)) =
          map2 FilterBox ?as (plan_filters (config s)) @ [terminal ?outs]"
    using i s' by (simp add: beat_build_worker link_processors_build_link BuildFilterBoxes_def)
  then have shape: "\<exists>as. length as = length (plan_filters (config s)) \<and>
            link_processors (firstNode (workers s' ! i)) =
              map2 FilterBox as (plan_filters (config s)) @ [terminal (outputsInAllWorker s' ! i)]"
    unfolding outs by (intro exI [of _ ?as]) simp
  have len: "length (outputsInAllWorker s' ! i) = length (plan_outputs (config s))"
    unfolding outs by (simp add: BuildOutputs_def)
  have fan: "length (plan_outputs (config s)) \<noteq> 1 \<longrightarrow>
              terminal (outputsInAllWorker s' ! i) = OutputsProcessor (outputsInAllWorker s' ! i)"
    using len by (auto simp: terminal_def split: list.splits)
  show ?thesis using shape len fan by simp
qed

theorem beat_link_in_configuration_order_witness:
  "step (Worker_build 0) demo_started = Some (beat_build 0 demo_started) \<and>
   length (outputsInAllWorker (beat_build 0 demo_started) ! 0) =
     length (plan_outputs (config demo_started)) \<and>
   length (plan_outputs (config demo_started)) = 2"
proof -
  have h: "step (Worker_build 0) demo_started = Some (beat_build 0 demo_started)"
    by (simp add: demo_started_def at_pc_def)
  have "length (plan_outputs (config demo_started)) = 2"
    by (simp add: demo_started_def boot_def NewInputBox_def demo_plan_def)
  with beat_link_in_configuration_order [OF h] h show ?thesis by blast
qed

section \<open>Runs\<close>

lemma run_invariant:
  assumes "run acts s = Some s'" and "P s"
    and "\<And>a t t'. P t \<Longrightarrow> step a t = Some t' \<Longrightarrow> P t'"
  shows "P s'"
  using assms(1,2)
proof (induction acts arbitrary: s)
  case Nil
  then show ?case by simp
next
  case (Cons a acts)
  then obtain t where t: "step a s = Some t" "run acts t = Some s'"
    by (auto split: option.splits)
  from assms(3) [OF Cons.prems(2) t(1)] t(2) show ?case
    by (rule Cons.IH [rotated])
qed

lemma run_append:
  "run (as @ bs) s = (case run as s of None \<Rightarrow> None | Some t \<Rightarrow> run bs t)"
  by (induction as arbitrary: s) (auto split: option.splits)

lemma set_pc_fields [simp]:
  "once (set_pc i p s) = once s" "stop (set_pc i p s) = stop s"
  "shutdownChan (set_pc i p s) = shutdownChan s" "Beat_pc (set_pc i p s) = Beat_pc s"
  "senders (set_pc i p s) = senders s" "setters (set_pc i p s) = setters s"
  "calls (set_pc i p s) = calls s" "heap (set_pc i p s) = heap s"
  "config (set_pc i p s) = config s" "outputsInAllWorker (set_pc i p s) = outputsInAllWorker s"
  "length (workers (set_pc i p s)) = length (workers s)"
  by (simp_all add: set_pc_def)

lemma set_pc_nth:
  "j < length (workers s) \<Longrightarrow>
   pc (workers (set_pc i p s) ! j) = (if j = i then p else pc (workers s ! j))"
  "j < length (workers s) \<Longrightarrow> firstNode (workers (set_pc i p s) ! j) = firstNode (workers s ! j)"
  by (cases "j = i"; simp add: set_pc_def)+

lemma beat_build_fields [simp]:
  "once (beat_build i s) = once s" "stop (beat_build i s) = stop s"
  "shutdownChan (beat_build i s) = shutdownChan s" "Beat_pc (beat_build i s) = Beat_pc s"
  "senders (beat_build i s) = senders s" "setters (beat_build i s) = setters s"
  "calls (beat_build i s) = calls s" "config (beat_build i s) = config s"
  "length (workers (beat_build i s)) = length (workers s)"
  "length (outputsInAllWorker (beat_build i s)) = length (outputsInAllWorker s)"
  by (simp_all add: beat_build_def Let_def split_beta)

lemma beat_build_pc:
  "j < length (workers s) \<Longrightarrow>
   pc (workers (beat_build i s) ! j) = (if j = i then LoopHead else pc (workers s ! j))"
  by (simp add: beat_build_def Let_def split_beta nth_list_update)

lemma shutdown_once_fields [simp]:
  "once (shutdown_once s) = True" "stop (shutdown_once s) = stop s"
  "shutdownChan (shutdown_once s) = shutdownChan s" "Beat_pc (shutdown_once s) = Beat_pc s"
  "senders (shutdown_once s) = senders s" "setters (shutdown_once s) = setters s"
  "workers (shutdown_once s) = workers s" "heap (shutdown_once s) = heap s"
  "config (shutdown_once s) = config s"
  "outputsInAllWorker (shutdown_once s) = outputsInAllWorker s"
  by (simp_all add: shutdown_once_def)

section \<open>Beat and the shutdown channel\<close>

lemma signalled_step:
  assumes "signalled s \<longrightarrow> once s" and "step a s = Some s'"
  shows "signalled s' \<longrightarrow> once s'"
proof (cases a)
  case (Call_Beat n)
  with assms show ?thesis by (auto simp: signalled_def split: if_splits)
next
  case Beat_receive
  with assms show ?thesis by (auto simp: signalled_def split: if_splits)
next
  case (Worker_build i)
  with assms show ?thesis
    by (auto simp: signalled_def at_pc_def beat_build_pc split: if_splits)
next
  case (Worker_test i)
  with assms show ?thesis
    by (auto simp: signalled_def at_pc_def set_pc_nth split: if_splits)
next
  case (Worker_read i r)
  with assms show ?thesis
    by (auto simp: signalled_def at_pc_def set_pc_nth split: if_splits option.splits)
next
  case (Worker_nil i)
  with assms show ?thesis
    by (auto simp: signalled_def at_pc_def set_pc_nth split: if_splits)
next
  case (Worker_send i)
  with assms show ?thesis
    by (auto simp: signalled_def at_pc_def set_pc_nth split: if_splits)
next
  case (Worker_process i)
  with assms show ?thesis
    by (auto simp: signalled_def set_pc_nth split: if_splits wpc.splits option.splits)
next
  case Call_Shutdown
  with assms show ?thesis by auto
next
  case Shutdown_send
  with assms show ?thesis by (auto simp: signalled_def split: if_splits)
next
  case Shutdown_set_stop
  with assms show ?thesis by (auto simp: signalled_def split: if_splits)
qed

lemma signalled_boot: "\<not> signalled (boot (NewInputBox inp cfg))"
  by (simp add: signalled_def boot_def NewInputBox_def)

text \<open>
  C10. \<open>Beat\<close> returns only by receiving from the shutdown channel: with an empty
  channel the receive cannot be taken, and in every run of a new box, once \<open>Beat\<close> has
  returned the guarded body of \<open>shutdown\<close> has been entered (the box is no longer
  running). The only steps that put a value into the channel are the sends of
  \<open>shutdown\<close>, in a worker or in a caller of \<open>Shutdown\<close>.
\<close>

theorem Beat_returns_only_after_shutdown:
  assumes "run acts (boot (NewInputBox inp cfg)) = Some s"
  shows "(Beat_pc s = Finished \<longrightarrow> once s)
       \<and> (shutdownChan s = 0 \<longrightarrow> step Beat_receive s = None)
       \<and> (\<forall>a s'. step a s = Some s' \<and> shutdownChan s < shutdownChan s' \<longrightarrow>
             once s \<and> (a = Shutdown_send \<or> (\<exists>i. a = Worker_send i)))"
proof -
  have inv: "signalled s \<longrightarrow> once s"
  proof (rule run_invariant [OF assms, where P = "\<lambda>t. signalled t \<longrightarrow> once t"])
    show "signalled (boot (NewInputBox inp cfg)) \<longrightarrow> once (boot (NewInputBox inp cfg))"
      by (simp add: signalled_boot)
  qed (rule signalled_step)
  then have 1: "Beat_pc s = Finished \<longrightarrow> once s"
    by (simp add: signalled_def)
  have 2: "shutdownChan s = 0 \<longrightarrow> step Beat_receive s = None"
    by simp
  have 3: "once s \<and> (a = Shutdown_send \<or> (\<exists>i. a = Worker_send i))"
    if "step a s = Some s'" "shutdownChan s < shutdownChan s'" for a s'
  proof -
    from that have a: "a = Shutdown_send \<or> (\<exists>i. a = Worker_send i)"
      by (cases a) (auto simp: shutdown_once_def at_pc_def split: if_splits option.splits wpc.splits)
    with that inv show ?thesis
      by (auto simp: signalled_def at_pc_def split: if_splits)
  qed
  from 1 2 3 show ?thesis by blast
qed

theorem Beat_returns_only_after_shutdown_witness:
  "\<exists>s. run [Call_Beat 2, Call_Shutdown, Shutdown_send, Beat_receive]
            (boot (NewInputBox ''stdin'' demo_plan)) = Some s
       \<and> Beat_pc s = Finished \<and> once s"
proof -
  have "\<exists>s. run [Call_Beat 2, Call_Shutdown, Shutdown_send, Beat_receive]
              (boot (NewInputBox ''stdin'' demo_plan)) = Some s \<and> Beat_pc s = Finished"
    by (simp add: boot_def NewInputBox_def shutdown_once_def)
  then obtain s where s: "run [Call_Beat 2, Call_Shutdown, Shutdown_send, Beat_receive]
              (boot (NewInputBox ''stdin'' demo_plan)) = Some s" "Beat_pc s = Finished"
    by blast
  from Beat_returns_only_after_shutdown [OF s(1)] s show ?thesis by blast
qed

section \<open>Shutdown of the drivers\<close>

lemma shutdown_calls_append [simp]:
  "shutdown_calls (xs @ ys) = shutdown_calls xs @ shutdown_calls ys"
  by (simp add: shutdown_calls_def)

lemma shutdown_calls_simps [simp]:
  "shutdown_calls [] = []"
  "shutdown_calls (c # cs) = (if is_shutdown c then c # shutdown_calls cs else shutdown_calls cs)"
  by (simp_all add: shutdown_calls_def)

lemma shutdown_calls_emit [simp]: "shutdown_calls (emit r outs) = []"
  by (cases r) (simp_all add: shutdown_calls_def)






lemma concat_update:
  assumes "i < length xs"
  shows "concat (xs[i := ys]) = concat (take i xs) @ ys @ concat (drop (Suc i) xs)"
    and "concat xs = concat (take i xs) @ xs ! i @ concat (drop (Suc i) xs)"
proof -
  show "concat (xs[i := ys]) = concat (take i xs) @ ys @ concat (drop (Suc i) xs)"
    using assms by (simp add: upd_conv_take_nth_drop)
  show "concat xs = concat (take i xs) @ xs ! i @ concat (drop (Suc i) xs)"
    using assms id_take_nth_drop [of i xs] by (metis concat.simps(2) concat_append)
qed

lemma distinct_concat_update:
  assumes "i < length xs" "distinct (concat xs)" "distinct ys" "set ys \<inter> set (concat xs) = {}"
  shows "distinct (concat (xs[i := ys]))"
proof -
  from concat_update(2) [OF assms(1)] assms(2,4)
  have "distinct (concat (take i xs) @ concat (drop (Suc i) xs))"
    and "set ys \<inter> set (concat (take i xs) @ concat (drop (Suc i) xs)) = {}"
    by auto
  with assms(3) show ?thesis
    unfolding concat_update(1) [OF assms(1)] by auto
qed

lemma set_concat_update:
  "set (concat (xs[i := ys])) \<subseteq> set ys \<union> set (concat xs)"
  using set_update_subset_insert [of xs i ys] by auto

lemma fresh_outputs_step:
  assumes "fresh_outputs s" and "step a s = Some s'"
  shows "fresh_outputs s'"
proof (cases a)
  case (Worker_build i)
  with assms(2) have i: "i < length (outputsInAllWorker s)" and s': "s' = beat_build i s"
    by (auto split: if_splits)
  let ?n = "length (plan_outputs (config s))"
  let ?new = "[heap s ..< heap s + ?n]"
  have ows: "outputsInAllWorker s' = (outputsInAllWorker s)[i := ?new]"
    and h: "heap s' = heap s + ?n + length (plan_filters (config s))"
    by (simp_all add: s' beat_build_def Let_def split_beta BuildOutputs_def BuildFilterBoxes_def)
  have disj: "set ?new \<inter> set (concat (outputsInAllWorker s)) = {}"
    using assms(1) by (force simp: fresh_outputs_def)
  have "distinct (concat (outputsInAllWorker s'))"
    unfolding ows using assms(1) disj
    by (intro distinct_concat_update [OF i]) (simp_all add: fresh_outputs_def)
  moreover have "\<forall>a \<in> set (concat (outputsInAllWorker s')). a < heap s'"
  proof
    fix a assume "a \<in> set (concat (outputsInAllWorker s'))"
    with set_concat_update [of "outputsInAllWorker s" i ?new] have "a \<in> set ?new \<or> a \<in> set (concat (outputsInAllWorker s))"
      unfolding ows by blast
    with assms(1) show "a < heap s'" unfolding h by (force simp: fresh_outputs_def)
  qed
  ultimately show ?thesis by (simp add: fresh_outputs_def)
next
  case (Worker_process i)
  with assms show ?thesis
    by (auto simp: fresh_outputs_def split: if_splits wpc.splits option.splits)
qed (use assms in \<open>auto simp: fresh_outputs_def split: if_splits\<close>)














section \<open>The end of the input\<close>




section \<open>One link per worker\<close>

lemma step_frame:
  assumes "step a s = Some s'" and "\<forall>n. a \<noteq> Call_Beat n" and "\<forall>i. a \<noteq> Worker_build i"
  shows "heap s' = heap s" and "outputsInAllWorker s' = outputsInAllWorker s"
    and "config s' = config s" and "length (workers s') = length (workers s)"
    and "Beat_pc s \<noteq> NotCalled \<longrightarrow> Beat_pc s' \<noteq> NotCalled"
    and "\<forall>j < length (workers s). firstNode (workers s' ! j) = firstNode (workers s ! j)"
    and "\<forall>j < length (workers s). (pc (workers s' ! j) = Spawned) = (pc (workers s ! j) = Spawned)"
proof -
  show "heap s' = heap s" "outputsInAllWorker s' = outputsInAllWorker s" "config s' = config s"
    "length (workers s') = length (workers s)" "Beat_pc s \<noteq> NotCalled \<longrightarrow> Beat_pc s' \<noteq> NotCalled"
    using assms by (cases a; auto split: if_splits wpc.splits option.splits)+
  show "\<forall>j < length (workers s). firstNode (workers s' ! j) = firstNode (workers s ! j)"
    using assms
    by (cases a; auto simp: set_pc_nth split: if_splits wpc.splits option.splits)
  show "\<forall>j < length (workers s). (pc (workers s' ! j) = Spawned) = (pc (workers s ! j) = Spawned)"
    using assms
    by (cases a; auto simp: set_pc_nth at_pc_def split: if_splits wpc.splits option.splits)
qed

lemma proc_ids_filters:
  "length as = length fs \<Longrightarrow> concat (map proc_ids (map2 FilterBox as fs)) = as"
proof (induction fs arbitrary: as)
  case Nil
  then show ?case by simp
next
  case (Cons f fs)
  then obtain a as' where "as = a # as'" "length as' = length fs"
    by (cases as) auto
  with Cons.IH [of as'] show ?case by simp
qed

lemma proc_ids_BuildFilterBoxes:
  "concat (map proc_ids (fst (BuildFilterBoxes cfg q h))) = [h ..< h + length (plan_filters cfg)]"
  unfolding BuildFilterBoxes_def fst_conv by (rule proc_ids_filters) simp

lemma proc_ids_terminal: "proc_ids (terminal outs) = outs"
  by (auto simp: terminal_def split: list.splits)

lemma beat_build_ids:
  assumes "i < length (workers s)"
  shows "worker_ids (beat_build i s) i =
           [heap s + length (plan_outputs (config s)) ..< heap (beat_build i s)]
           @ [heap s ..< heap s + length (plan_outputs (config s))]"
    and "heap (beat_build i s) =
           heap s + length (plan_outputs (config s)) + length (plan_filters (config s))"
    and "firstNode (workers (beat_build i s) ! i) \<noteq> None"
    and "\<forall>j < length (workers s). j \<noteq> i \<longrightarrow> workers (beat_build i s) ! j = workers s ! j"
proof -
  show h: "heap (beat_build i s) =
           heap s + length (plan_outputs (config s)) + length (plan_filters (config s))"
    by (simp add: beat_build_def Let_def split_beta BuildOutputs_def BuildFilterBoxes_def)
  show "worker_ids (beat_build i s) i =
           [heap s + length (plan_outputs (config s)) ..< heap (beat_build i s)]
           @ [heap s ..< heap s + length (plan_outputs (config s))]"
    unfolding h worker_ids_def link_ids_def beat_build_worker [OF assms]
    by (simp add: link_processors_build_link proc_ids_BuildFilterBoxes BuildOutputs_def
        proc_ids_terminal)
  have "link_processors (firstNode (workers (beat_build i s) ! i)) \<noteq> []"
    unfolding beat_build_worker [OF assms] by (simp add: link_processors_build_link)
  then show "firstNode (workers (beat_build i s) ! i) \<noteq> None"
    by (cases "firstNode (workers (beat_build i s) ! i)") simp_all
  show "\<forall>j < length (workers s). j \<noteq> i \<longrightarrow> workers (beat_build i s) ! j = workers s ! j"
    by (simp add: beat_build_def Let_def split_beta)
qed





section \<open>Order of events within a worker\<close>

lemma reads_append [simp]: "reads i (xs @ ys) = reads i xs @ reads i ys"
  by (induction i xs rule: reads.induct) simp_all

lemma handed_append [simp]: "handed a (xs @ ys) = handed a xs @ handed a ys"
  by (induction a xs rule: handed.induct) simp_all

lemma reads_emit [simp]: "reads i (emit r outs) = []"
  by (cases r) (simp_all, induction outs, simp_all)

lemma handed_emit_notin: "a \<notin> set outs \<Longrightarrow> handed a (emit r outs) = []"
  by (cases r) (simp_all, induction outs, auto)

lemma handed_emit_in:
  "a \<in> set outs \<Longrightarrow> distinct outs \<Longrightarrow> handed a (emit r outs) = (case r of None \<Rightarrow> [] | Some e \<Rightarrow> [e])"
proof (cases r)
  case None
  then show ?thesis by simp
next
  case (Some e)
  assume "a \<in> set outs" "distinct outs"
  then have "handed a (map (\<lambda>b. OutputProcess b e) outs) = [e]"
  proof (induction outs)
    case Nil
    then show ?case by simp
  next
    case (Cons b outs)
    then show ?case
      using handed_emit_notin [of a outs "Some e"] by auto
  qed
  with Some show ?thesis by simp
qed

lemma reads_shutdown_outputs [simp]: "reads i (shutdown_outputs ows) = []"
proof -
  have inner: "reads i (concat (map (\<lambda>a. [GlogInfo m, OutputShutdown a]) outs)) = []" for m outs
    by (induction outs) simp_all
  show ?thesis unfolding shutdown_outputs_def by (induction ows) (simp_all add: inner)
qed

lemma handed_shutdown_outputs [simp]: "handed a (shutdown_outputs ows) = []"
proof -
  have inner: "handed a (concat (map (\<lambda>b. [GlogInfo m, OutputShutdown b]) outs)) = []" for m outs
    by (induction outs) simp_all
  show ?thesis unfolding shutdown_outputs_def by (induction ows) (simp_all add: inner)
qed

lemma io_shutdown_once [simp]:
  "reads i (calls (shutdown_once s)) = reads i (calls s)"
  "handed a (calls (shutdown_once s)) = handed a (calls s)"
  by (simp_all add: shutdown_once_def)

lemma map_filter_snoc:
  "List.map_filter f (xs @ [x]) = List.map_filter f xs @ (case f x of None \<Rightarrow> [] | Some y \<Rightarrow> [y])"
  by (simp add: List.map_filter_def split: option.splits)

lemma disjoint_concat_nth:
  "distinct (concat xs) \<Longrightarrow> i < length xs \<Longrightarrow> j < length xs \<Longrightarrow> i \<noteq> j \<Longrightarrow>
   set (xs ! i) \<inter> set (xs ! j) = {}"
proof (induction xs arbitrary: i j)
  case Nil
  then show ?case by simp
next
  case (Cons x xs)
  have sub: "set (xs ! k) \<subseteq> set (concat xs)" if "k < length xs" for k
    using that by (auto dest: nth_mem)
  show ?case
  proof (cases i)
    case 0
    with Cons.prems obtain j' where "j = Suc j'" "j' < length xs"
      by (cases j) auto
    with 0 Cons.prems(1) sub [of j'] show ?thesis by auto
  next
    case (Suc i')
    show ?thesis
    proof (cases j)
      case 0
      with Suc Cons.prems sub [of i'] show ?thesis by auto
    next
      case (Suc j')
      with \<open>i = Suc i'\<close> Cons.prems Cons.IH [of i' j'] show ?thesis by simp
    qed
  qed
qed

lemma distinct_concat_nth: "distinct (concat xs) \<Longrightarrow> i < length xs \<Longrightarrow> distinct (xs ! i)"
  by (induction xs arbitrary: i) (auto simp: nth_Cons split: nat.splits)

lemma beat_build_link_Process:
  assumes "i < length (workers s)"
  shows "link_Process (firstNode (workers (beat_build i s) ! i)) e cs =
           Some (None, cs @ emit (chain (plan_filters (config s)) e) (fst (BuildOutputs (config s) (heap s))))"
proof -
  let ?h1 = "snd (BuildOutputs (config s) (heap s))"
  let ?q = "terminal (fst (BuildOutputs (config s) (heap s)))"
  have bs: "fst (BuildFilterBoxes (config s) ?q ?h1) =
              map2 FilterBox [?h1 ..< ?h1 + length (plan_filters (config s))] (plan_filters (config s))"
    by (simp add: BuildFilterBoxes_def)
  show ?thesis
    unfolding beat_build_worker [OF assms] link_Process_build_link bs
    by (subst procs_Process_link) simp_all
qed

lemma step_quiet:
  assumes "step a s = Some s'" and "\<forall>n. a \<noteq> Call_Beat n" and "\<forall>i. a \<noteq> Worker_build i"
    and "\<forall>i r. a \<noteq> Worker_read i r" and "\<forall>i. a \<noteq> Worker_process i"
  shows "reads i (calls s') = reads i (calls s)" and "handed b (calls s') = handed b (calls s)"
    and "\<forall>j < length (workers s). \<forall>e. (pc (workers s' ! j) = Holding e) = (pc (workers s ! j) = Holding e)"
proof -
  show "reads i (calls s') = reads i (calls s)" "handed b (calls s') = handed b (calls s)"
    using assms by (cases a; auto split: if_splits)+
  show "\<forall>j < length (workers s). \<forall>e. (pc (workers s' ! j) = Holding e) = (pc (workers s ! j) = Holding e)"
    using assms by (cases a; auto simp: set_pc_nth at_pc_def split: if_splits)
qed

lemma processed_cong:
  assumes "reads i (calls s') = reads i (calls s)"
    and "\<forall>e. (pc (workers s' ! i) = Holding e) = (pc (workers s ! i) = Holding e)"
  shows "processed s' i = processed s i"
proof (cases "\<exists>e. pc (workers s ! i) = Holding e")
  case True
  then obtain e where e: "pc (workers s ! i) = Holding e" by blast
  with assms(2) have "pc (workers s' ! i) = Holding e" by blast
  with e assms(1) show ?thesis by (simp add: processed_def)
next
  case False
  with assms(2) have "\<nexists>e. pc (workers s' ! i) = Holding e" by simp
  with False assms(1) show ?thesis
    by (cases "pc (workers s ! i)"; cases "pc (workers s' ! i)"; simp add: processed_def)
qed

lemma worker_in_order_cong:
  assumes "worker_in_order s i"
    and "reads i (calls s') = reads i (calls s)"
    and "\<forall>a \<in> set (outputsInAllWorker s ! i). handed a (calls s') = handed a (calls s)"
    and "outputsInAllWorker s' ! i = outputsInAllWorker s ! i" and "config s' = config s"
    and "firstNode (workers s' ! i) = firstNode (workers s ! i)"
    and "(pc (workers s' ! i) = Spawned) = (pc (workers s ! i) = Spawned)"
    and "\<forall>e. (pc (workers s' ! i) = Holding e) = (pc (workers s ! i) = Holding e)"
  shows "worker_in_order s' i"
proof -
  have p: "processed s' i = processed s i"
    using assms(2,8) by (rule processed_cong)
  from assms(1) show ?thesis
    unfolding worker_in_order_def p assms(2,4,5,6,7) using assms(3,8) by simp
qed

lemma in_order_quiet:
  assumes "in_order s" and "step a s = Some s'" and "\<forall>n. a \<noteq> Call_Beat n" and "\<forall>i. a \<noteq> Worker_build i"
    and "\<forall>i r. a \<noteq> Worker_read i r" and "\<forall>i. a \<noteq> Worker_process i"
  shows "in_order s'"
proof -
  note f = step_frame [OF assms(2,3,4)]
  note q = step_quiet [OF assms(2-6)]
  have fr: "fresh_outputs s'"
    using assms(1) by (intro fresh_outputs_step [OF _ assms(2)]) (simp add: in_order_def)
  have w: "worker_in_order s' j" if "j < length (workers s')" for j
  proof -
    from that f(4) have j: "j < length (workers s)" by simp
    with assms(1) have "worker_in_order s j" by (simp add: in_order_def)
    then show ?thesis
      using q(1) [of j] q(2) f(2,3) f(6,7) [rule_format, OF j] q(3) [rule_format, OF j]
      by (intro worker_in_order_cong [of s j s']) simp_all
  qed
  from assms(1) have "length (outputsInAllWorker s') = length (workers s')"
    and "\<forall>a. heap s' \<le> a \<longrightarrow> handed a (calls s') = []"
    and "Beat_pc s' = NotCalled \<longrightarrow> workers s' = [] \<and> (\<forall>i. reads i (calls s') = [])"
    using f q(1,2) by (auto simp: in_order_def simp del: step.simps)
  with fr w show ?thesis unfolding in_order_def by blast
qed

lemma in_order_Call_Beat:
  assumes "in_order s" and "step (Call_Beat n) s = Some s'"
  shows "in_order s'"
proof -
  from assms(2) have b: "Beat_pc s = NotCalled"
    and s': "s' = s\<lparr>outputsInAllWorker := replicate n [],
                   workers := replicate n \<lparr>pc = Spawned, firstNode = None\<rparr>,
                   Beat_pc := Waiting\<rparr>"
    by (auto split: if_splits)
  from assms(1) b have r: "\<forall>i. reads i (calls s) = []"
    and h: "\<forall>a. heap s \<le> a \<longrightarrow> handed a (calls s) = []"
    by (simp_all add: in_order_def)
  show ?thesis
    unfolding in_order_def worker_in_order_def s' using r h by (simp add: fresh_outputs_def)
qed

lemma in_order_Worker_build:
  assumes "in_order s" and "step (Worker_build i) s = Some s'"
  shows "in_order s'"
proof -
  from assms(2) have i: "i < length (workers s)" "pc (workers s ! i) = Spawned"
    "i < length (outputsInAllWorker s)" and s': "s' = beat_build i s"
    by (auto simp: at_pc_def split: if_splits)
  from assms(1) have inv:
    "length (outputsInAllWorker s) = length (workers s)"
    "\<forall>a. heap s \<le> a \<longrightarrow> handed a (calls s) = []"
    "Beat_pc s = NotCalled \<longrightarrow> workers s = [] \<and> (\<forall>i. reads i (calls s) = [])"
    and w: "\<And>j. j < length (workers s) \<Longrightarrow> worker_in_order s j"
    by (simp_all add: in_order_def)
  have fr: "fresh_outputs s'"
    using assms(1) by (intro fresh_outputs_step [OF _ assms(2)]) (simp add: in_order_def)
  note b = beat_build_ids [OF i(1)]
  have grow: "heap s \<le> heap s'" by (simp add: s' b(2))
  have outs: "outputsInAllWorker s' ! i = [heap s ..< heap s + length (plan_outputs (config s))]"
    using i(3) by (simp add: s' beat_build_outputs BuildOutputs_def)
  have ri: "reads i (calls s) = []"
    using w [OF i(1)] i(2) by (simp add: worker_in_order_def)
  have pi: "processed s' i = []"
    using ri i by (simp add: processed_def s' beat_build_pc)
  have wi: "worker_in_order s' i"
    unfolding worker_in_order_def
  proof (intro conjI)
    show "pc (workers s' ! i) = Spawned \<longrightarrow> reads i (calls s') = []"
      using i by (simp add: s' beat_build_pc)
    show "pc (workers s' ! i) \<noteq> Spawned \<longrightarrow>
            (\<forall>e cs. link_Process (firstNode (workers s' ! i)) e cs =
                      Some (None, cs @ emit (chain (plan_filters (config s')) e) (outputsInAllWorker s' ! i)))"
      using i by (simp add: s' beat_build_link_Process beat_build_outputs)
    show "\<forall>e. pc (workers s' ! i) = Holding e \<longrightarrow>
                reads i (calls s') \<noteq> [] \<and> last (reads i (calls s')) = e"
      using i by (simp add: s' beat_build_pc)
    show "\<forall>a \<in> set (outputsInAllWorker s' ! i).
            handed a (calls s') = List.map_filter (chain (plan_filters (config s'))) (processed s' i)"
      unfolding outs pi using inv(2) by (simp add: s' List.map_filter_def)
  qed
  have wj: "worker_in_order s' j" if "j < length (workers s')" for j
  proof (cases "j = i")
    case True
    with wi show ?thesis by simp
  next
    case False
    from that have j: "j < length (workers s)" by (simp add: s')
    from j False b(4) have same: "workers s' ! j = workers s ! j" by (simp add: s')
    have sameo: "outputsInAllWorker s' ! j = outputsInAllWorker s ! j"
      using False by (simp add: s' beat_build_def Let_def split_beta)
    show ?thesis
      using w [OF j] same sameo
      by (intro worker_in_order_cong [of s j s']) (simp_all add: s')
  qed
  have "length (outputsInAllWorker s') = length (workers s')"
    using inv(1) by (simp add: s')
  moreover have "\<forall>a. heap s' \<le> a \<longrightarrow> handed a (calls s') = []"
    using inv(2) grow by (simp add: s')
  moreover have "Beat_pc s' = NotCalled \<longrightarrow> workers s' = [] \<and> (\<forall>i. reads i (calls s') = [])"
    using inv(3) i(1) by (auto simp: s')
  ultimately show ?thesis
    unfolding in_order_def using fr wj by blast
qed

lemma in_order_Worker_read:
  assumes "in_order s" and "step (Worker_read i r) s = Some s'"
  shows "in_order s'"
proof -
  let ?t = "s\<lparr>calls := calls s @ [ReadOneEvent i r]\<rparr>"
  from assms(2) have i: "i < length (workers s)" "pc (workers s ! i) = Reading"
    and s': "s' = set_pc i (case r of None \<Rightarrow> GotNil | Some e \<Rightarrow> Holding e) ?t"
    by (auto simp: at_pc_def split: if_splits)
  from assms(1) have inv:
    "length (outputsInAllWorker s) = length (workers s)"
    "\<forall>a. heap s \<le> a \<longrightarrow> handed a (calls s) = []"
    "Beat_pc s = NotCalled \<longrightarrow> workers s = [] \<and> (\<forall>i. reads i (calls s) = [])"
    and w: "\<And>j. j < length (workers s) \<Longrightarrow> worker_in_order s j"
    by (simp_all add: in_order_def)
  have fr: "fresh_outputs s'"
    using assms(1) by (intro fresh_outputs_step [OF _ assms(2)]) (simp add: in_order_def)
  have hd: "handed a (calls s') = handed a (calls s)" for a
    by (simp add: s')
  have rd: "reads j (calls s') = reads j (calls s)" if "j \<noteq> i" for j
    using that by (cases r) (simp_all add: s')
  have wi: "worker_in_order s' i"
  proof (cases r)
    case None
    then have "reads i (calls s') = reads i (calls s)" by (simp add: s')
    moreover from None i have "pc (workers s' ! i) = GotNil"
      by (simp add: s' set_pc_nth)
    ultimately show ?thesis
      using w [OF i(1)] i
      by (intro worker_in_order_cong [of s i s']) (simp_all add: hd, simp_all add: s' set_pc_nth)
  next
    case (Some e)
    with i have pc': "pc (workers s' ! i) = Holding e"
      by (simp add: s' set_pc_nth)
    from Some have r': "reads i (calls s') = reads i (calls s) @ [e]" by (simp add: s')
    have p': "processed s' i = processed s i"
      using i by (simp add: processed_def pc' r')
    from w [OF i(1)] i show ?thesis
      unfolding worker_in_order_def p' pc' hd r'
      by (simp add: s' set_pc_nth)
  qed
  have wj: "worker_in_order s' j" if "j < length (workers s')" for j
  proof (cases "j = i")
    case True
    with wi show ?thesis by simp
  next
    case False
    from that have j: "j < length (workers s)" by (simp add: s')
    show ?thesis
      using w [OF j] rd [OF False] hd j False
      by (intro worker_in_order_cong [of s j s']) (simp_all add: s' set_pc_nth)
  qed
  have "length (outputsInAllWorker s') = length (workers s')"
    using inv(1) by (simp add: s')
  moreover have "\<forall>a. heap s' \<le> a \<longrightarrow> handed a (calls s') = []"
    using inv(2) hd by (simp add: s')
  moreover have "Beat_pc s' = NotCalled \<longrightarrow> workers s' = [] \<and> (\<forall>i. reads i (calls s') = [])"
    using inv(3) i(1) by (auto simp: s')
  ultimately show ?thesis
    unfolding in_order_def using fr wj by blast
qed

lemma in_order_Worker_process:
  assumes "in_order s" and "step (Worker_process i) s = Some s'"
  shows "in_order s'"
proof -
  from assms(2) obtain e n where i: "i < length (workers s)" "pc (workers s ! i) = Holding e"
    "firstNode (workers s ! i) = Some n"
    and s': "s' = set_pc i LoopHead (s\<lparr>calls := snd (node_Process n e (calls s))\<rparr>)"
    by (auto split: if_splits wpc.splits option.splits)
  from assms(1) have inv:
    "length (outputsInAllWorker s) = length (workers s)"
    "\<forall>a. heap s \<le> a \<longrightarrow> handed a (calls s) = []"
    "Beat_pc s = NotCalled \<longrightarrow> workers s = [] \<and> (\<forall>i. reads i (calls s) = [])"
    "fresh_outputs s"
    and w: "\<And>j. j < length (workers s) \<Longrightarrow> worker_in_order s j"
    by (simp_all add: in_order_def)
  let ?fs = "plan_filters (config s)"
  let ?outs = "outputsInAllWorker s ! i"
  from w [OF i(1)] i(2) have sem: "link_Process (firstNode (workers s ! i)) e (calls s) =
      Some (None, calls s @ emit (chain ?fs e) ?outs)"
    and last: "reads i (calls s) \<noteq> []" "last (reads i (calls s)) = e"
    and hi: "\<forall>a \<in> set ?outs. handed a (calls s) = List.map_filter (chain ?fs) (processed s i)"
    by (simp_all add: worker_in_order_def)
  from sem i(3) have cs: "calls s' = calls s @ emit (chain ?fs e) ?outs"
    by (simp add: s')
  have fr: "fresh_outputs s'"
    using assms(1) by (intro fresh_outputs_step [OF _ assms(2)]) (simp add: in_order_def)
  from inv(1,4) i(1) have io: "i < length (outputsInAllWorker s)"
    and d: "distinct (concat (outputsInAllWorker s))"
    and below: "\<forall>a \<in> set (concat (outputsInAllWorker s)). a < heap s"
    by (simp_all add: fresh_outputs_def)
  have di: "distinct ?outs" using d io by (rule distinct_concat_nth)
  have rd: "reads j (calls s') = reads j (calls s)" for j
    by (simp add: cs)
  have wi: "worker_in_order s' i"
    unfolding worker_in_order_def
  proof (intro conjI)
    show "pc (workers s' ! i) = Spawned \<longrightarrow> reads i (calls s') = []"
      using i by (simp add: s' set_pc_nth)
    show "pc (workers s' ! i) \<noteq> Spawned \<longrightarrow>
            (\<forall>e cs. link_Process (firstNode (workers s' ! i)) e cs =
                      Some (None, cs @ emit (chain (plan_filters (config s')) e) (outputsInAllWorker s' ! i)))"
      using w [OF i(1)] i by (simp add: worker_in_order_def s' set_pc_nth)
    show "\<forall>e. pc (workers s' ! i) = Holding e \<longrightarrow>
                reads i (calls s') \<noteq> [] \<and> last (reads i (calls s')) = e"
      using i by (simp add: s' set_pc_nth)
    show "\<forall>a \<in> set (outputsInAllWorker s' ! i).
            handed a (calls s') = List.map_filter (chain (plan_filters (config s'))) (processed s' i)"
    proof
      fix a assume "a \<in> set (outputsInAllWorker s' ! i)"
      then have a: "a \<in> set ?outs" by (simp add: s')
      have "pc (workers s' ! i) = LoopHead"
        using i by (simp add: s' set_pc_nth)
      then have "processed s' i = reads i (calls s')"
        by (simp add: processed_def)
      also have "\<dots> = reads i (calls s)" by (rule rd)
      also have "\<dots> = butlast (reads i (calls s)) @ [e]"
        using last by (metis append_butlast_last_id)
      also have "butlast (reads i (calls s)) = processed s i"
        using i by (simp add: processed_def)
      finally have p: "processed s' i = processed s i @ [e]" .
      have "handed a (calls s') = handed a (calls s) @ (case chain ?fs e of None \<Rightarrow> [] | Some y \<Rightarrow> [y])"
        unfolding cs by (simp add: handed_emit_in [OF a di])
      also have "\<dots> = List.map_filter (chain ?fs) (processed s i @ [e])"
        using hi a by (simp add: map_filter_snoc)
      finally show "handed a (calls s') = List.map_filter (chain (plan_filters (config s'))) (processed s' i)"
        unfolding p by (simp add: s')
    qed
  qed
  have wj: "worker_in_order s' j" if "j < length (workers s')" for j
  proof (cases "j = i")
    case True
    with wi show ?thesis by simp
  next
    case False
    from that have j: "j < length (workers s)" by (simp add: s')
    with inv(1) have jo: "j < length (outputsInAllWorker s)" by simp
    have "set (outputsInAllWorker s ! j) \<inter> set ?outs = {}"
      using d jo io False by (rule disjoint_concat_nth)
    then have "\<forall>a \<in> set (outputsInAllWorker s ! j). handed a (calls s') = handed a (calls s)"
      unfolding cs by (auto intro!: handed_emit_notin)
    then show ?thesis
      using w [OF j] rd [of j] j False
      by (intro worker_in_order_cong [of s j s']) (simp_all add: s' set_pc_nth)
  qed
  have "length (outputsInAllWorker s') = length (workers s')"
    using inv(1) by (simp add: s')
  moreover have "\<forall>a. heap s' \<le> a \<longrightarrow> handed a (calls s') = []"
  proof (intro allI impI)
    fix a assume "heap s' \<le> a"
    then have a: "heap s \<le> a" by (simp add: s')
    have "?outs \<in> set (outputsInAllWorker s)" using io by (rule nth_mem)
    with below have "\<forall>b \<in> set ?outs. b < heap s" by auto
    with a have "a \<notin> set ?outs" by fastforce
    with a inv(2) show "handed a (calls s') = []"
      unfolding cs by (simp add: handed_emit_notin)
  qed
  moreover have "Beat_pc s' = NotCalled \<longrightarrow> workers s' = [] \<and> (\<forall>i. reads i (calls s') = [])"
    using inv(3) i(1) by (auto simp: s')
  ultimately show ?thesis
    unfolding in_order_def using fr wj by blast
qed

lemma in_order_step:
  assumes "in_order s" and "step a s = Some s'"
  shows "in_order s'"
proof (cases a)
  case (Call_Beat n)
  with assms show ?thesis by (auto intro: in_order_Call_Beat simp del: step.simps)
next
  case (Worker_build i)
  with assms show ?thesis by (auto intro: in_order_Worker_build simp del: step.simps)
next
  case (Worker_read i r)
  with assms show ?thesis by (auto intro: in_order_Worker_read simp del: step.simps)
next
  case (Worker_process i)
  with assms show ?thesis by (auto intro: in_order_Worker_process simp del: step.simps)
qed (use assms in \<open>auto intro: in_order_quiet simp del: step.simps\<close>)

lemma in_order_boot: "in_order (boot (NewInputBox inp cfg))"
  by (simp add: in_order_def fresh_outputs_def boot_def NewInputBox_def)

lemma config_run:
  assumes "run acts s = Some s'"
  shows "config s' = config s"
proof (rule run_invariant [OF assms, where P = "\<lambda>t. config t = config s"])
  fix a t t'
  assume "config t = config s" "step a t = Some t'"
  then show "config t' = config s"
    by (cases a) (auto split: if_splits wpc.splits option.splits)
qed simp

text \<open>
  C5. In every run of a box and for every worker, the events handed to each output of
  that worker are, in the same order, the events the worker has read and passed to its
  link, each sent through the configured filters, the dropped ones left out.
\<close>

theorem outputs_receive_filtered_events_in_order:
  assumes "run acts (boot (NewInputBox inp cfg)) = Some s"
    and "i < length (workers s)" and "a \<in> set (outputsInAllWorker s ! i)"
  shows "handed a (calls s) = List.map_filter (chain (plan_filters cfg)) (processed s i)"
proof -
  have "in_order s"
    by (rule run_invariant [OF assms(1), where P = in_order]) (rule in_order_boot, rule in_order_step)
  with assms(2) have "worker_in_order s i" by (simp add: in_order_def)
  moreover have "config s = cfg"
    using config_run [OF assms(1)] by (simp add: boot_def NewInputBox_def)
  ultimately show ?thesis using assms(3) by (simp add: worker_in_order_def)
qed

theorem outputs_receive_filtered_events_in_order_witness:
  "\<exists>s. run filter_run (boot (NewInputBox ''stdin'' demo_plan)) = Some s
     \<and> 0 < length (workers s) \<and> 1 \<in> set (outputsInAllWorker s ! 0)
     \<and> processed s 0 = [5, 0, 7]
     \<and> handed 1 (calls s) = [6, 8]"
proof -
  have "\<exists>s. run filter_run (boot (NewInputBox ''stdin'' demo_plan)) = Some s
     \<and> 0 < length (workers s) \<and> 1 \<in> set (outputsInAllWorker s ! 0)
     \<and> processed s 0 = [5, 0, 7]"
    unfolding filter_run_def
    by (simp add: boot_def NewInputBox_def demo_plan_def at_pc_def set_pc_def beat_build_def
        BuildOutputs_def BuildFilterBoxes_def build_link_def terminal_def processed_def upt_rec)
  then obtain s where
    h: "run filter_run (boot (NewInputBox ''stdin'' demo_plan)) = Some s"
      "0 < length (workers s)" "1 \<in> set (outputsInAllWorker s ! 0)"
    and p: "processed s 0 = [5, 0, 7]"
    by blast
  from outputs_receive_filtered_events_in_order [OF h]
  have "handed 1 (calls s) = List.map_filter (chain (plan_filters demo_plan)) (processed s 0)" .
  also have "\<dots> = [6, 8]"
    unfolding p by (simp add: demo_plan_def List.map_filter_def)
  finally show ?thesis using h p by blast
qed

section \<open>Startup, reload and termination\<close>

lemma Shutdown_returns:
  assumes "shutdownChan s = 0"
  shows "\<exists>s'. Shutdown s = Returns s' \<and> once s' \<and> stop s'"
  using assms by (simp add: Shutdown_def)

lemma stop_inputs_returns:
  assumes "\<forall>box \<in> set boxes. shutdownChan box = 0"
  shows "\<exists>boxes'. stop_inputs boxes = Returns boxes'"
  using assms
proof (induction boxes)
  case Nil
  then show ?case by simp
next
  case (Cons box boxes)
  then obtain box' boxes' where "Shutdown box = Returns box'" "stop_inputs boxes = Returns boxes'"
    using Shutdown_returns [of box] by auto
  then show ?case by simp
qed

lemma reload_parse_failure:
  "reload (Inl err) GetInput opts worker sv =
     Returns (sv\<lparr>klog := klog sv @ [Error ''could not parse config, ignore reload'']\<rparr>)"
  by (simp add: reload_def)

text \<open>
  C1. When parsing fails, \<open>reload\<close> logs and leaves \<open>inputs\<close> as it is. When the plan
  parses but \<open>buildPluginLink\<close> fails, \<open>reload\<close> has already stopped the old inputs: the
  one running box of \<open>demo_supervisor\<close> is shut down, nothing is started in its place,
  and the log says that the reload is ignored.
\<close>

theorem reload_build_failure_stops_running_boxes:
  "map running (inputs demo_supervisor) = [True] \<and>
   returned (reload (Inr unknown_input_plan) only_stdin plain_options 1 demo_supervisor) \<and>
   map running (inputs (final (reload (Inr unknown_input_plan) only_stdin plain_options 1 demo_supervisor)))
     = [False] \<and>
   map shutdowns_made (inputs (final (reload (Inr unknown_input_plan) only_stdin plain_options 1 demo_supervisor)))
     = [[InputShutdown]] \<and>
   klog (final (reload (Inr unknown_input_plan) only_stdin plain_options 1 demo_supervisor))
     = [Info ''stop old inputs'', Error ''build plugin link error, ignore reload'']"
  by (simp add: reload_def demo_supervisor_def demo_started_def unknown_input_plan_def
      only_stdin_def plain_options_def buildPluginLink_def Shutdown_def running_def
      shutdowns_made_def shutdown_once_def shutdown_outputs_def boot_def NewInputBox_def demo_plan_def)

text \<open>
  C8. At startup a parse failure or a failure of \<open>buildPluginLink\<close> ends the process
  with the exit code 255 of \<open>klog.Fatalf\<close>, before any box has been started. A \<open>_main\<close>
  that comes back from \<open>inputs.stop()\<close> ends the process with exit code 0, and it does
  come back when the shutdown channel of every box is empty.
\<close>

theorem startup_failure_is_fatal:
  "((\<exists>err. parsed = Inl err) \<or>
    (\<exists>cfg err. parsed = Inr cfg \<and> buildPluginLink GetInput opts cfg = Inl err) \<longrightarrow>
      (\<exists>code sv. main_startup parsed GetInput opts worker watched = Exit code sv \<and> code \<noteq> 0 \<and>
                 inputs sv = []))
   \<and> (\<forall>code sv'. main_finish sv = Exit code sv' \<longrightarrow> code = 0)
   \<and> ((\<forall>box \<in> set (inputs sv). shutdownChan box = 0) \<longrightarrow> (\<exists>sv'. main_finish sv = Exit 0 sv'))"
proof -
  have 1: "\<exists>code sv. main_startup parsed GetInput opts worker watched = Exit code sv \<and> code \<noteq> 0 \<and>
                 inputs sv = []"
    if "(\<exists>err. parsed = Inl err) \<or>
        (\<exists>cfg err. parsed = Inr cfg \<and> buildPluginLink GetInput opts cfg = Inl err)"
    using that by (auto simp: main_startup_def)
  have 2: "code = 0" if "main_finish sv = Exit code sv'" for code sv'
    using that by (simp add: main_finish_def split: outcome.splits)
  have 3: "\<exists>sv'. main_finish sv = Exit 0 sv'" if "\<forall>box \<in> set (inputs sv). shutdownChan box = 0"
    using stop_inputs_returns [OF that] by (auto simp: main_finish_def)
  from 1 2 3 show ?thesis by blast
qed

theorem startup_failure_is_fatal_witness:
  "buildPluginLink only_stdin plain_options unknown_input_plan = Inl ''invalid input plugin'' \<and>
   (\<exists>code sv. main_startup (Inr unknown_input_plan) only_stdin plain_options 1 True = Exit code sv
       \<and> code \<noteq> 0 \<and> inputs sv = []) \<and>
   (\<exists>sv'. main_finish demo_supervisor = Exit 0 sv')"
proof -
  have b: "buildPluginLink only_stdin plain_options unknown_input_plan = Inl ''invalid input plugin''"
    by (simp add: buildPluginLink_def unknown_input_plan_def only_stdin_def)
  have c: "\<forall>box \<in> set (inputs demo_supervisor). shutdownChan box = 0"
    by (simp add: demo_supervisor_def demo_started_def boot_def NewInputBox_def)
  from startup_failure_is_fatal [of "Inr unknown_input_plan" only_stdin plain_options 1 True demo_supervisor]
    b c show ?thesis by blast
qed

end
